theory Spec2Isabelle
  imports
    Main
    "HOL-Library.Finite_Map"
    "HOL-Library.Char_ord"
    "HOL-Library.List_Lexorder"
    "HOL-Library.Product_Lexorder"
begin

section \<open>Data model of \<open>GitHubAPIBot\<close> (src/github\_bot.py)\<close>

text \<open>
  A Python \<open>str\<close> is modelled as a \<open>string\<close>; a \<open>char\<close> stands for a code point
  below 256. Python compares strings lexicographically by code point, which is the
  order of \<open>HOL-Library.List_Lexorder\<close> over \<open>HOL-Library.Char_ord\<close>.

  A \<open>Dict[str, str]\<close> is a finite map. Dictionaries are mutable objects that the bot
  holds by reference, so they live in an explicit store: \<open>cells\<close> gives the dictionary
  at every reference and \<open>next_ref\<close> is the first reference that has not been handed
  out yet. Creating a dictionary (\<open>{}\<close>, \<open>dict.copy()\<close>) takes the next reference.
\<close>

type_synonym dict = "(string, string) fmap"

type_synonym ref = nat

record heap =
  cells :: "ref \<Rightarrow> dict"
  next_ref :: ref

definition alloc :: "dict \<Rightarrow> heap \<Rightarrow> ref \<times> heap" where
  "alloc d h = (next_ref h, \<lparr>cells = (cells h)(next_ref h := d), next_ref = Suc (next_ref h)\<rparr>)"

text \<open>\<open>d.copy()\<close>: a new dictionary object with the entries of the old one.\<close>

definition dict_copy :: "ref \<Rightarrow> heap \<Rightarrow> ref \<times> heap" where
  "dict_copy r h = alloc (cells h r) h"

text \<open>
  The two attributes of the bot that the tracking code uses. Each holds a reference
  to a dictionary. (The attribute \<open>g\<close>, the GitHub client, plays no part here.)
\<close>

record bot =
  initial_files :: ref
  current_files :: ref

text \<open>\<open>__init__\<close>: both attributes start as two separate empty dictionaries.\<close>

definition bot_init :: "heap \<Rightarrow> bot \<times> heap" where
  "bot_init h =
     (let (a, h1) = alloc fmempty h;
          (b, h2) = alloc fmempty h1
      in (\<lparr>initial_files = a, current_files = b\<rparr>, h2))"

subsection \<open>\<open>get_all_files\<close>\<close>

text \<open>
  What \<open>repo.get_contents\<close> returns is a listing of content entries. A file entry has
  a path and its decoded text, \<open>None\<close> when \<open>decoded_content.decode()\<close> raises; a
  directory entry has a path and the listing that \<open>repo.get_contents\<close> returns for it.
\<close>

datatype content_file =
  File string "string option"
| Dir string "content_file list"

definition binary_marker :: string where
  "binary_marker = ''[Binary file]''"

text \<open>
  The \<open>while contents:\<close> loop. \<open>contents.pop(0)\<close> takes the head of the queue, a
  directory appends its listing at the end, a file is stored under its path, with the
  marker where decoding raised.
\<close>

function walk :: "content_file list \<Rightarrow> dict \<Rightarrow> dict" where
  "walk [] files = files"
| "walk (File path decoded # contents) files =
     walk contents
       (fmupd path (case decoded of Some text \<Rightarrow> text | None \<Rightarrow> binary_marker) files)"
| "walk (Dir path listing # contents) files = walk (contents @ listing) files"
  by pat_completeness auto
termination
  by (relation "measure (\<lambda>(contents, files). size_list size contents)") auto

text \<open>The dictionary \<open>files\<close> is created inside the call and returned by reference.\<close>

definition get_all_files :: "content_file list \<Rightarrow> heap \<Rightarrow> ref \<times> heap" where
  "get_all_files contents h = alloc (walk contents fmempty) h"

subsection \<open>Tracking\<close>

definition initialize_tracking :: "bot \<Rightarrow> content_file list \<Rightarrow> heap \<Rightarrow> bot \<times> heap" where
  "initialize_tracking self contents h =
     (let (r, h1) = get_all_files contents h;
          self1 = self\<lparr>initial_files := r\<rparr>;
          (c, h2) = dict_copy (initial_files self1) h1
      in (self1\<lparr>current_files := c\<rparr>, h2))"

definition track_file_change :: "bot \<Rightarrow> string \<Rightarrow> string \<Rightarrow> heap \<Rightarrow> heap" where
  "track_file_change self file_path content h =
     h\<lparr>cells := (cells h)(current_files self :=
          fmupd file_path content (cells h (current_files self)))\<rparr>"

definition track_file_deletion :: "bot \<Rightarrow> string \<Rightarrow> heap \<Rightarrow> heap" where
  "track_file_deletion self file_path h =
     (if file_path \<in> fmdom' (cells h (current_files self))
      then h\<lparr>cells := (cells h)(current_files self :=
             fmdrop file_path (cells h (current_files self)))\<rparr>
      else h)"

text \<open>A caller's sequence of tracking calls on one bot.\<close>

datatype tracking_call =
  Change string string
| Deletion string

fun run_call :: "bot \<Rightarrow> tracking_call \<Rightarrow> heap \<Rightarrow> heap" where
  "run_call self (Change file_path content) h = track_file_change self file_path content h"
| "run_call self (Deletion file_path) h = track_file_deletion self file_path h"

fun run_calls :: "bot \<Rightarrow> tracking_call list \<Rightarrow> heap \<Rightarrow> heap" where
  "run_calls self [] h = h"
| "run_calls self (c # cs) h = run_calls self cs (run_call self c h)"

subsection \<open>\<open>get_changes\<close>\<close>

definition get_changes :: "bot \<Rightarrow> heap \<Rightarrow> string set \<times> string set \<times> string set" where
  "get_changes self h =
     (let initial = cells h (initial_files self);
          current = cells h (current_files self);
          initial_keys = fmdom' initial;
          current_keys = fmdom' current;
          added_files = current_keys - initial_keys;
          deleted_files = initial_keys - current_keys;
          modified_files =
            {file_path \<in> initial_keys \<inter> current_keys.
               fmlookup initial file_path \<noteq> fmlookup current file_path}
      in (added_files, modified_files, deleted_files))"

subsection \<open>Python string methods used by \<open>generate_patch\<close>\<close>

text \<open>
  \<open>str.splitlines(keepends=True)\<close> cuts after every line boundary and keeps the
  boundary at the end of its line. The boundaries below 256 are line feed, vertical
  tab, form feed, carriage return (a carriage return followed by a line feed counts as
  one boundary), the separators 0x1C, 0x1D, 0x1E, and next line 0x85. Text after the
  last boundary is a last line without a terminator.
\<close>

definition is_linebreak :: "char \<Rightarrow> bool" where
  "is_linebreak c \<longleftrightarrow>
     c \<in> {CHR 0x0A, CHR 0x0B, CHR 0x0C, CHR 0x0D, CHR 0x1C, CHR 0x1D, CHR 0x1E, CHR 0x85}"

fun splitlines_from :: "string \<Rightarrow> string \<Rightarrow> string list" where
  "splitlines_from line [] = (if line = [] then [] else [line])"
| "splitlines_from line [c] = [line @ [c]]"
| "splitlines_from line (c # d # cs) =
     (if c = CHR 0x0D \<and> d = CHR 0x0A then (line @ [c, d]) # splitlines_from [] cs
      else if is_linebreak c then (line @ [c]) # splitlines_from [] (d # cs)
      else splitlines_from (line @ [c]) (d # cs))"

definition splitlines_keepends :: "string \<Rightarrow> string list" where
  "splitlines_keepends s = splitlines_from [] s"

text \<open>
  \<open>str.rstrip()\<close> without an argument removes all trailing whitespace. The whitespace
  characters below 256 are tab, the line boundaries above, 0x1F, space, and the
  no-break space 0xA0.
\<close>

definition is_space :: "char \<Rightarrow> bool" where
  "is_space c \<longleftrightarrow>
     c \<in> {CHR 0x09, CHR 0x0A, CHR 0x0B, CHR 0x0C, CHR 0x0D, CHR 0x1C, CHR 0x1D, CHR 0x1E,
          CHR 0x1F, CHR 0x20, CHR 0x85, CHR 0xA0}"

definition rstrip :: "string \<Rightarrow> string" where
  "rstrip s = rev (dropWhile is_space (rev s))"

text \<open>\<open>sep.join(lines)\<close>.\<close>

fun join :: "string \<Rightarrow> string list \<Rightarrow> string" where
  "join sep [] = []"
| "join sep [x] = x"
| "join sep (x # y # ys) = x @ sep @ join sep (y # ys)"

text \<open>\<open>'{}'.format(n)\<close> for an integer \<open>n \<ge> 0\<close>: its decimal digits.\<close>

definition digit_char :: "nat \<Rightarrow> char" where
  "digit_char d = ''0123456789'' ! d"

function str_of_nat :: "nat \<Rightarrow> string" where
  "str_of_nat n =
     (if n < 10 then [digit_char n] else str_of_nat (n div 10) @ [digit_char (n mod 10)])"
  by pat_completeness auto
termination
  by (relation "measure id") auto

declare str_of_nat.simps [simp del]

subsection \<open>\<open>difflib.unified_diff\<close>\<close>

text \<open>
  \<open>generate_patch\<close> calls \<open>difflib.unified_diff\<close> of the Python standard library, which
  works through \<open>SequenceMatcher(None, a, b)\<close>. The functions below follow the library's
  code. Positions in \<open>a\<close> and \<open>b\<close> are natural numbers; in the two places where
  Python's integer could go below zero (\<open>j-1\<close> at \<open>j = 0\<close> and \<open>i2-n\<close>) the model
  says what Python computes there.
\<close>

type_synonym match = "nat \<times> nat \<times> nat"

text \<open>
  \<open>__chain_b\<close>: \<open>b2j\<close> maps each line of \<open>b\<close> to the increasing list of its positions.
  No junk predicate is given, so \<open>bjunk\<close> is empty. With \<open>autojunk\<close> and at least 200
  lines, a line that occurs more than \<open>n // 100 + 1\<close> times is removed from \<open>b2j\<close>.
\<close>

definition bjunk :: "string set" where
  "bjunk = {}"

definition chain_b :: "string list \<Rightarrow> (string \<rightharpoonup> nat list)" where
  "chain_b b =
     (let b2j = fold (\<lambda>(i, elt) b2j.
                   b2j(elt \<mapsto> (case b2j elt of None \<Rightarrow> [] | Some indices \<Rightarrow> indices) @ [i]))
                 (enumerate 0 b) Map.empty;
          n = length b
      in if n \<ge> 200
         then (let ntest = n div 100 + 1
               in (\<lambda>elt. case b2j elt of
                            None \<Rightarrow> None
                          | Some idxs \<Rightarrow> if length idxs > ntest then None else Some idxs))
         else b2j)"

text \<open>
  \<open>find_longest_match\<close>. \<open>scan_row\<close> is the inner \<open>for j in b2j.get(a[i], nothing)\<close>
  with its \<open>continue\<close> and \<open>break\<close>; \<open>j2lenget(j-1, 0)\<close> finds nothing at \<open>j = 0\<close>,
  since no key of \<open>j2len\<close> is negative. \<open>scan_rows\<close> is the outer
  \<open>for i in range(alo, ahi)\<close>.
\<close>

fun scan_row ::
  "nat \<Rightarrow> nat \<Rightarrow> nat \<Rightarrow> (nat \<rightharpoonup> nat) \<Rightarrow> nat list \<Rightarrow> (nat \<rightharpoonup> nat) \<Rightarrow> match
     \<Rightarrow> (nat \<rightharpoonup> nat) \<times> match" where
  "scan_row i blo bhi j2len [] newj2len best = (newj2len, best)"
| "scan_row i blo bhi j2len (j # js) newj2len (besti, bestj, bestsize) =
     (if j < blo then scan_row i blo bhi j2len js newj2len (besti, bestj, bestsize)
      else if j \<ge> bhi then (newj2len, (besti, bestj, bestsize))
      else let k = (if j = 0 then 0
                    else case j2len (j - 1) of None \<Rightarrow> 0 | Some len \<Rightarrow> len) + 1
           in if k > bestsize
              then scan_row i blo bhi j2len js (newj2len(j \<mapsto> k)) (i + 1 - k, j + 1 - k, k)
              else scan_row i blo bhi j2len js (newj2len(j \<mapsto> k)) (besti, bestj, bestsize))"

fun scan_rows ::
  "string list \<Rightarrow> (string \<rightharpoonup> nat list) \<Rightarrow> nat \<Rightarrow> nat \<Rightarrow> nat list \<Rightarrow> (nat \<rightharpoonup> nat) \<Rightarrow> match
     \<Rightarrow> match" where
  "scan_rows a b2j blo bhi [] j2len best = best"
| "scan_rows a b2j blo bhi (i # rows) j2len best =
     (case scan_row i blo bhi j2len (case b2j (a ! i) of None \<Rightarrow> [] | Some js \<Rightarrow> js)
             Map.empty best of
        (newj2len, best') \<Rightarrow> scan_rows a b2j blo bhi rows newj2len best')"

text \<open>
  The four \<open>while\<close> loops that extend the match. The first two run over lines that are
  not junk, the last two over junk lines; \<open>junk\<close> says which.
\<close>

function extend_back ::
  "string list \<Rightarrow> string list \<Rightarrow> nat \<Rightarrow> nat \<Rightarrow> bool \<Rightarrow> match \<Rightarrow> match" where
  "extend_back a b alo blo junk (besti, bestj, bestsize) =
     (if besti > alo \<and> bestj > blo \<and> (b ! (bestj - 1) \<in> bjunk) = junk
         \<and> a ! (besti - 1) = b ! (bestj - 1)
      then extend_back a b alo blo junk (besti - 1, bestj - 1, bestsize + 1)
      else (besti, bestj, bestsize))"
  by pat_completeness auto
termination
  by (relation "measure (\<lambda>(a, b, alo, blo, junk, besti, bestj, bestsize). besti)") auto

function extend_forward ::
  "string list \<Rightarrow> string list \<Rightarrow> nat \<Rightarrow> nat \<Rightarrow> bool \<Rightarrow> match \<Rightarrow> match" where
  "extend_forward a b ahi bhi junk (besti, bestj, bestsize) =
     (if besti + bestsize < ahi \<and> bestj + bestsize < bhi
         \<and> (b ! (bestj + bestsize) \<in> bjunk) = junk
         \<and> a ! (besti + bestsize) = b ! (bestj + bestsize)
      then extend_forward a b ahi bhi junk (besti, bestj, bestsize + 1)
      else (besti, bestj, bestsize))"
  by pat_completeness auto
termination
  by (relation "measure (\<lambda>(a, b, ahi, bhi, junk, besti, bestj, bestsize).
                   ahi - (besti + bestsize))") auto

declare extend_back.simps [simp del] extend_forward.simps [simp del]

definition find_longest_match ::
  "string list \<Rightarrow> string list \<Rightarrow> (string \<rightharpoonup> nat list) \<Rightarrow> nat \<Rightarrow> nat \<Rightarrow> nat \<Rightarrow> nat \<Rightarrow> match" where
  "find_longest_match a b b2j alo ahi blo bhi =
     extend_forward a b ahi bhi True
       (extend_back a b alo blo True
         (extend_forward a b ahi bhi False
           (extend_back a b alo blo False
             (scan_rows a b2j blo bhi [alo..<ahi] Map.empty (alo, blo, 0)))))"

text \<open>
  The match that \<open>find_longest_match\<close> returns lies inside \<open>a[alo:ahi]\<close>. This is what
  makes the loop of \<open>get_matching_blocks\<close> terminate.
\<close>

definition in_range :: "nat \<Rightarrow> nat \<Rightarrow> match \<Rightarrow> bool" where
  "in_range alo ahi best =
     (case best of (besti, bestj, bestsize) \<Rightarrow>
        alo \<le> besti \<and> (besti + bestsize \<le> ahi \<or> (bestsize = 0 \<and> besti = alo)))"

lemma scan_row_in_range:
  assumes old: "\<And>j v. j2len j = Some v \<Longrightarrow> v \<le> i - alo"
    and i: "alo \<le> i" "i < ahi"
  shows "in_range alo ahi best
    \<Longrightarrow> (\<And>j v. newj2len j = Some v \<Longrightarrow> v \<le> i - alo + 1)
    \<Longrightarrow> scan_row i blo bhi j2len js newj2len best = (newj2len', best')
    \<Longrightarrow> in_range alo ahi best' \<and> (\<forall>j v. newj2len' j = Some v \<longrightarrow> v \<le> i - alo + 1)"
proof (induction js arbitrary: newj2len best)
  case Nil
  then show ?case by auto
next
  case (Cons j js)
  obtain besti bestj bestsize where best: "best = (besti, bestj, bestsize)"
    by (cases best)
  define k where
    "k = (if j = 0 then 0 else case j2len (j - 1) of None \<Rightarrow> 0 | Some len \<Rightarrow> len) + 1"
  have k: "k \<le> i - alo + 1"
    using old by (auto simp: k_def split: option.splits)
  have upd: "\<And>j' v. (newj2len(j \<mapsto> k)) j' = Some v \<Longrightarrow> v \<le> i - alo + 1"
    using k Cons.prems(2) by (auto split: if_splits)
  have new: "in_range alo ahi (i + 1 - k, j + 1 - k, k)"
    using k i by (auto simp: in_range_def)
  consider (lo) "j < blo" | (hi) "\<not> j < blo" "bhi \<le> j"
    | (better) "\<not> j < blo" "\<not> bhi \<le> j" "bestsize < k"
    | (same) "\<not> j < blo" "\<not> bhi \<le> j" "\<not> bestsize < k"
    by blast
  then show ?case
  proof cases
    case lo
    then have "scan_row i blo bhi j2len js newj2len best = (newj2len', best')"
      using Cons.prems(3) by (simp add: best)
    from Cons.IH [OF Cons.prems(1) Cons.prems(2) this] show ?thesis .
  next
    case hi
    then have "newj2len' = newj2len" "best' = best"
      using Cons.prems(3) by (simp_all add: best)
    then show ?thesis using Cons.prems(1,2) by blast
  next
    case better
    then have "scan_row i blo bhi j2len js (newj2len(j \<mapsto> k)) (i + 1 - k, j + 1 - k, k)
               = (newj2len', best')"
      using Cons.prems(3) by (simp add: best k_def Let_def)
    from Cons.IH [OF new upd this] show ?thesis .
  next
    case same
    then have "scan_row i blo bhi j2len js (newj2len(j \<mapsto> k)) best = (newj2len', best')"
      using Cons.prems(3) by (simp add: best k_def Let_def)
    from Cons.IH [OF Cons.prems(1) upd this] show ?thesis .
  qed
qed

lemma scan_rows_in_range:
  assumes "\<And>j v. j2len j = Some v \<Longrightarrow> v \<le> m - alo"
    and "alo \<le> m" and "in_range alo ahi best"
  shows "in_range alo ahi (scan_rows a b2j blo bhi [m..<ahi] j2len best)"
  using assms
proof (induction "ahi - m" arbitrary: m j2len best)
  case 0
  then show ?case by simp
next
  case (Suc n)
  then have lt: "m < ahi" by simp
  obtain newj2len best' where
    row: "scan_row m blo bhi j2len (case b2j (a ! m) of None \<Rightarrow> [] | Some js \<Rightarrow> js) Map.empty best
          = (newj2len, best')"
    by (cases "scan_row m blo bhi j2len (case b2j (a ! m) of None \<Rightarrow> [] | Some js \<Rightarrow> js) Map.empty best")
  have r: "in_range alo ahi best' \<and> (\<forall>j v. newj2len j = Some v \<longrightarrow> v \<le> m - alo + 1)"
    by (rule scan_row_in_range[OF Suc.prems(1) Suc.prems(2) lt Suc.prems(3) _ row]) simp_all
  have "in_range alo ahi (scan_rows a b2j blo bhi [Suc m..<ahi] newj2len best')"
  proof (rule Suc.hyps(1))
    show "n = ahi - Suc m" using Suc.hyps(2) by simp
    show "\<And>j v. newj2len j = Some v \<Longrightarrow> v \<le> Suc m - alo"
      using r Suc.prems(2) by (auto simp: Suc_diff_le)
    show "alo \<le> Suc m" using Suc.prems(2) by simp
    show "in_range alo ahi best'" using r by simp
  qed
  then show ?case using lt row by (simp add: upt_conv_Cons)
qed

lemma extend_back_in_range:
  "in_range alo ahi best \<Longrightarrow> in_range alo ahi (extend_back a b alo blo junk best)"
proof (induction a b alo blo junk best rule: extend_back.induct)
  case (1 a b alo blo junk besti bestj bestsize)
  show ?case
  proof (cases "besti > alo \<and> bestj > blo \<and> (b ! (bestj - 1) \<in> bjunk) = junk
         \<and> a ! (besti - 1) = b ! (bestj - 1)")
    case True
    have "in_range alo ahi (besti - 1, bestj - 1, bestsize + 1)"
      using True "1.prems" unfolding in_range_def by auto
    with "1.IH"[OF True] True show ?thesis
      by (subst extend_back.simps) simp
  next
    case False
    with "1.prems" show ?thesis by (subst extend_back.simps) auto
  qed
qed

lemma extend_forward_in_range:
  "in_range alo ahi best \<Longrightarrow> in_range alo ahi (extend_forward a b ahi bhi junk best)"
proof (induction a b ahi bhi junk best rule: extend_forward.induct)
  case (1 a b ahi bhi junk besti bestj bestsize)
  show ?case
  proof (cases "besti + bestsize < ahi \<and> bestj + bestsize < bhi
         \<and> (b ! (bestj + bestsize) \<in> bjunk) = junk
         \<and> a ! (besti + bestsize) = b ! (bestj + bestsize)")
    case True
    have "in_range alo ahi (besti, bestj, bestsize + 1)"
      using True "1.prems" unfolding in_range_def by auto
    with "1.IH"[OF True] True show ?thesis
      by (subst extend_forward.simps) simp
  next
    case False
    with "1.prems" show ?thesis by (subst extend_forward.simps) auto
  qed
qed

lemma find_longest_match_in_range:
  "in_range alo ahi (find_longest_match a b b2j alo ahi blo bhi)"
  unfolding find_longest_match_def
  by (intro extend_forward_in_range extend_back_in_range scan_rows_in_range)
     (simp_all add: in_range_def)

lemma find_longest_match_bounds:
  "find_longest_match a b b2j alo ahi blo bhi = (i, j, k) \<Longrightarrow> k \<noteq> 0 \<Longrightarrow> alo \<le> i \<and> i + k \<le> ahi"
  using find_longest_match_in_range[of alo ahi a b b2j blo bhi] by (simp add: in_range_def)

text \<open>
  The \<open>while queue:\<close> loop of \<open>get_matching_blocks\<close>. The Python list \<open>queue\<close> is
  used as a stack (\<open>pop()\<close> takes the last element); the model keeps the top of the
  stack at the head of the list.
\<close>

lemma find_longest_match_split_bounds:
  "(i, rest) = find_longest_match a b b2j alo ahi blo bhi \<Longrightarrow> (j, k) = rest \<Longrightarrow> k \<noteq> 0
   \<Longrightarrow> alo \<le> i \<and> i + k \<le> ahi"
  using find_longest_match_bounds [of a b b2j alo ahi blo bhi i j k] by simp

function match_loop ::
  "string list \<Rightarrow> string list \<Rightarrow> (string \<rightharpoonup> nat list) \<Rightarrow> (nat \<times> nat \<times> nat \<times> nat) list
     \<Rightarrow> match list \<Rightarrow> match list" where
  "match_loop a b b2j [] matching_blocks = matching_blocks"
| "match_loop a b b2j ((alo, ahi, blo, bhi) # queue) matching_blocks =
     (case find_longest_match a b b2j alo ahi blo bhi of
        (i, j, k) \<Rightarrow>
          if k \<noteq> 0
          then match_loop a b b2j
                 ((if i + k < ahi \<and> j + k < bhi then [(i + k, ahi, j + k, bhi)] else [])
                  @ (if alo < i \<and> blo < j then [(alo, i, blo, j)] else [])
                  @ queue)
                 (matching_blocks @ [(i, j, k)])
          else match_loop a b b2j queue matching_blocks)"
  by pat_completeness auto
termination
proof (relation "measure (\<lambda>(a, b, b2j, queue, matching_blocks).
                   sum_list (map (\<lambda>(alo, ahi, blo, bhi). 2 * (ahi - alo) + 1) queue))",
       goal_cases)
  case 1
  show ?case by simp
next
  case (2 a b b2j alo ahi blo bhi queue matching_blocks i rest j k)
  from find_longest_match_split_bounds [OF 2(1) 2(2) 2(3)]
  have "alo \<le> i \<and> i + k \<le> ahi" .
  moreover have "0 < k" using 2(3) by simp
  ultimately show ?case by simp arith
next
  case 3
  then show ?case by simp
qed


text \<open>
  \<open>get_matching_blocks\<close>: the blocks are sorted (tuples compare lexicographically),
  adjacent blocks are merged, and the sentinel \<open>(la, lb, 0)\<close> is appended.
\<close>

definition merge_adjacent :: "match \<Rightarrow> nat \<times> nat \<times> nat \<times> match list \<Rightarrow> nat \<times> nat \<times> nat \<times> match list" where
  "merge_adjacent m st =
     (case (m, st) of ((i2, j2, k2), (i1, j1, k1, non_adjacent)) \<Rightarrow>
        if i1 + k1 = i2 \<and> j1 + k1 = j2 then (i1, j1, k1 + k2, non_adjacent)
        else (i2, j2, k2, if k1 \<noteq> 0 then non_adjacent @ [(i1, j1, k1)] else non_adjacent))"

definition get_matching_blocks :: "string list \<Rightarrow> string list \<Rightarrow> match list" where
  "get_matching_blocks a b =
     (let la = length a; lb = length b;
          matching_blocks = sort (match_loop a b (chain_b b) [(0, la, 0, lb)] [])
      in case fold merge_adjacent matching_blocks (0, 0, 0, []) of
           (i1, j1, k1, non_adjacent) \<Rightarrow>
             (if k1 \<noteq> 0 then non_adjacent @ [(i1, j1, k1)] else non_adjacent) @ [(la, lb, 0)])"

datatype tag = Replace | Delete | Insert | Equal

type_synonym opcode = "tag \<times> nat \<times> nat \<times> nat \<times> nat"

definition opcode_step :: "match \<Rightarrow> nat \<times> nat \<times> opcode list \<Rightarrow> nat \<times> nat \<times> opcode list" where
  "opcode_step m st =
     (case (m, st) of ((ai, bj, sz), (i, j, answer)) \<Rightarrow>
        let answer = (if i < ai \<and> j < bj then answer @ [(Replace, i, ai, j, bj)]
                      else if i < ai then answer @ [(Delete, i, ai, j, bj)]
                      else if j < bj then answer @ [(Insert, i, ai, j, bj)]
                      else answer);
            i = ai + sz; j = bj + sz
        in (i, j, if sz \<noteq> 0 then answer @ [(Equal, ai, i, bj, j)] else answer))"

definition get_opcodes :: "string list \<Rightarrow> string list \<Rightarrow> opcode list" where
  "get_opcodes a b = snd (snd (fold opcode_step (get_matching_blocks a b) (0, 0, [])))"

text \<open>
  \<open>get_grouped_opcodes\<close>. \<open>max(i1, i2-n)\<close> is \<open>i1\<close> when \<open>i2-n\<close> is negative, which is
  what truncated subtraction gives. The generator's \<open>yield\<close> appends to \<open>groups\<close>.
\<close>

definition trim_first :: "nat \<Rightarrow> opcode list \<Rightarrow> opcode list" where
  "trim_first n codes =
     (case hd codes of (tag, i1, i2, j1, j2) \<Rightarrow>
        if tag = Equal then codes[0 := (tag, max i1 (i2 - n), i2, max j1 (j2 - n), j2)]
        else codes)"

definition trim_last :: "nat \<Rightarrow> opcode list \<Rightarrow> opcode list" where
  "trim_last n codes =
     (case last codes of (tag, i1, i2, j1, j2) \<Rightarrow>
        if tag = Equal
        then codes[length codes - 1 := (tag, i1, min i2 (i1 + n), j1, min j2 (j1 + n))]
        else codes)"

definition group_step ::
  "nat \<Rightarrow> opcode \<Rightarrow> opcode list \<times> opcode list list \<Rightarrow> opcode list \<times> opcode list list" where
  "group_step n code st =
     (case (code, st) of ((tag, i1, i2, j1, j2), (grp, groups)) \<Rightarrow>
        if tag = Equal \<and> i2 - i1 > n + n
        then ([(tag, max i1 (i2 - n), i2, max j1 (j2 - n), j2)],
              groups @ [grp @ [(tag, i1, min i2 (i1 + n), j1, min j2 (j1 + n))]])
        else (grp @ [(tag, i1, i2, j1, j2)], groups))"

definition get_grouped_opcodes :: "string list \<Rightarrow> string list \<Rightarrow> nat \<Rightarrow> opcode list list" where
  "get_grouped_opcodes a b n =
     (let codes = get_opcodes a b;
          codes = (if codes = [] then [(Equal, 0, 1, 0, 1)] else codes);
          codes = trim_first n codes;
          codes = trim_last n codes
      in case fold (group_step n) codes ([], []) of
           (grp, groups) \<Rightarrow>
             if grp \<noteq> [] \<and> \<not> (length grp = 1 \<and> fst (hd grp) = Equal)
             then groups @ [grp] else groups)"

definition format_range_unified :: "nat \<Rightarrow> nat \<Rightarrow> string" where
  "format_range_unified start stop =
     (let beginning = start + 1; len = stop - start
      in if len = 1 then str_of_nat beginning
         else str_of_nat (if len = 0 then beginning - 1 else beginning)
                @ '','' @ str_of_nat len)"

text \<open>\<open>a[i1:i2]\<close> for positions \<open>0 \<le> i1\<close>, \<open>0 \<le> i2\<close>.\<close>

definition slice :: "'a list \<Rightarrow> nat \<Rightarrow> nat \<Rightarrow> 'a list" where
  "slice xs i1 i2 = take (i2 - i1) (drop i1 xs)"

definition opcode_lines :: "string list \<Rightarrow> string list \<Rightarrow> opcode \<Rightarrow> string list" where
  "opcode_lines a b code =
     (case code of (tag, i1, i2, j1, j2) \<Rightarrow>
        if tag = Equal then map (\<lambda>line. '' '' @ line) (slice a i1 i2)
        else (if tag \<in> {Replace, Delete} then map (\<lambda>line. ''-'' @ line) (slice a i1 i2) else [])
           @ (if tag \<in> {Replace, Insert} then map (\<lambda>line. ''+'' @ line) (slice b j1 j2) else []))"

text \<open>
  \<open>unified_diff(a, b, n=n, lineterm=lineterm)\<close> with the file names and dates left at
  their defaults (empty), collected into a list as \<open>list(...)\<close> does. The two file
  header lines come out once, before the first group.
\<close>

definition diff_step ::
  "string list \<Rightarrow> string list \<Rightarrow> string \<Rightarrow> opcode list \<Rightarrow> bool \<times> string list \<Rightarrow> bool \<times> string list" where
  "diff_step a b lineterm grp st =
     (case st of (started, out) \<Rightarrow>
        let out = (if \<not> started then out @ [''--- '' @ lineterm, ''+++ '' @ lineterm] else out);
            first = hd grp; final = last grp;
            file1_range = format_range_unified (fst (snd first)) (fst (snd (snd final)));
            file2_range = format_range_unified (fst (snd (snd (snd first))))
                                               (snd (snd (snd (snd final))));
            out = out @ [''@@ -'' @ file1_range @ '' +'' @ file2_range @ '' @@'' @ lineterm]
        in (True, out @ concat (map (opcode_lines a b) grp)))"

definition unified_diff :: "string list \<Rightarrow> string list \<Rightarrow> nat \<Rightarrow> string \<Rightarrow> string list" where
  "unified_diff a b n lineterm =
     snd (fold (diff_step a b lineterm) (get_grouped_opcodes a b n) (False, []))"

subsection \<open>\<open>generate_patch\<close> and \<open>get_changed_files_summary\<close>\<close>

text \<open>\<open>d[key]\<close> raises \<open>KeyError\<close> when the key is missing.\<close>

datatype py_error = KeyError string

text \<open>
  What one pass of each \<open>for\<close> loop of \<open>generate_patch\<close> appends before the empty
  separator line: the two header lines and the body.
\<close>

definition deleted_block :: "string \<Rightarrow> string \<Rightarrow> string list" where
  "deleted_block file_path content =
     [''--- a/'' @ file_path, ''+++ /dev/null'']
     @ map (\<lambda>line. ''-'' @ rstrip line) (splitlines_keepends content)"

definition modified_block :: "string \<Rightarrow> string \<Rightarrow> string \<Rightarrow> string list" where
  "modified_block file_path initial_content current_content =
     [''--- a/'' @ file_path, ''+++ b/'' @ file_path]
     @ (let original_lines = splitlines_keepends initial_content;
            new_lines = splitlines_keepends current_content;
            diff = unified_diff original_lines new_lines 3 []
        in if length diff > 2 then drop 2 diff else [])"

definition added_block :: "string \<Rightarrow> string \<Rightarrow> string list" where
  "added_block file_path content =
     [''--- /dev/null'', ''+++ b/'' @ file_path]
     @ map (\<lambda>line. ''+'' @ rstrip line) (splitlines_keepends content)"

fun deleted_loop :: "dict \<Rightarrow> string list \<Rightarrow> string list \<Rightarrow> py_error + string list" where
  "deleted_loop initial [] patch_lines = Inr patch_lines"
| "deleted_loop initial (file_path # rest) patch_lines =
     (case fmlookup initial file_path of
        None \<Rightarrow> Inl (KeyError file_path)
      | Some content \<Rightarrow>
          deleted_loop initial rest (patch_lines @ deleted_block file_path content @ [[]]))"

fun modified_loop ::
  "dict \<Rightarrow> dict \<Rightarrow> string list \<Rightarrow> string list \<Rightarrow> py_error + string list" where
  "modified_loop initial current [] patch_lines = Inr patch_lines"
| "modified_loop initial current (file_path # rest) patch_lines =
     (case fmlookup initial file_path of
        None \<Rightarrow> Inl (KeyError file_path)
      | Some initial_content \<Rightarrow>
          (case fmlookup current file_path of
             None \<Rightarrow> Inl (KeyError file_path)
           | Some current_content \<Rightarrow>
               modified_loop initial current rest
                 (patch_lines @ modified_block file_path initial_content current_content
                    @ [[]])))"

fun added_loop :: "dict \<Rightarrow> string list \<Rightarrow> string list \<Rightarrow> py_error + string list" where
  "added_loop current [] patch_lines = Inr patch_lines"
| "added_loop current (file_path # rest) patch_lines =
     (case fmlookup current file_path of
        None \<Rightarrow> Inl (KeyError file_path)
      | Some content \<Rightarrow>
          added_loop current rest (patch_lines @ added_block file_path content @ [[]]))"

text \<open>
  The list \<open>patch_lines\<close> at the end of \<open>generate_patch\<close>. \<open>sorted(s)\<close> of a set of
  strings is its sorted list. The empty string is written \<open>[]\<close>.
\<close>

definition generate_patch_lines :: "bot \<Rightarrow> heap \<Rightarrow> py_error + string list" where
  "generate_patch_lines self h =
     (case get_changes self h of
        (added, modified, deleted) \<Rightarrow>
          (case deleted_loop (cells h (initial_files self)) (sorted_list_of_set deleted) [] of
             Inl e \<Rightarrow> Inl e
           | Inr patch_lines \<Rightarrow>
               (case modified_loop (cells h (initial_files self)) (cells h (current_files self))
                       (sorted_list_of_set modified) patch_lines of
                  Inl e \<Rightarrow> Inl e
                | Inr patch_lines \<Rightarrow>
                    added_loop (cells h (current_files self)) (sorted_list_of_set added)
                      patch_lines)))"

definition generate_patch :: "bot \<Rightarrow> heap \<Rightarrow> py_error + string" where
  "generate_patch self h =
     (case generate_patch_lines self h of
        Inl e \<Rightarrow> Inl e
      | Inr patch_lines \<Rightarrow> Inr (join ''\<newline>'' patch_lines))"

text \<open>
  \<open>get_changed_files_summary\<close>. Each loop runs over a set, whose iteration order
  Python leaves open; the dictionary it fills does not depend on that order, and the
  model takes the paths in sorted order.
\<close>

fun summary_loop :: "dict \<Rightarrow> string list \<Rightarrow> dict \<Rightarrow> py_error + dict" where
  "summary_loop files [] category = Inr category"
| "summary_loop files (file_path # rest) category =
     (case fmlookup files file_path of
        None \<Rightarrow> Inl (KeyError file_path)
      | Some content \<Rightarrow> summary_loop files rest (fmupd file_path content category))"

definition get_changed_files_summary :: "bot \<Rightarrow> heap \<Rightarrow> py_error + (string, dict) fmap" where
  "get_changed_files_summary self h =
     (case get_changes self h of
        (added, modified, deleted) \<Rightarrow>
          (case summary_loop (cells h (current_files self)) (sorted_list_of_set added) fmempty of
             Inl e \<Rightarrow> Inl e
           | Inr added_summary \<Rightarrow>
               (case summary_loop (cells h (current_files self)) (sorted_list_of_set modified)
                       fmempty of
                  Inl e \<Rightarrow> Inl e
                | Inr modified_summary \<Rightarrow>
                    (case summary_loop (cells h (initial_files self))
                            (sorted_list_of_set deleted) fmempty of
                       Inl e \<Rightarrow> Inl e
                     | Inr deleted_summary \<Rightarrow>
                         Inr (fmap_of_list [(''added'', added_summary),
                                            (''modified'', modified_summary),
                                            (''deleted'', deleted_summary)])))))"

subsection \<open>Notions for the proof that equal sequences have an empty diff\<close>

text \<open>
  \<open>b2j_step\<close> is the loop body of \<open>__chain_b\<close>; \<open>positions_ok\<close> says that \<open>b2j\<close> maps a
  line to the increasing list of all its positions. \<open>diag_run b2j a i\<close> is the number of
  consecutive lines ending at \<open>i\<close> that \<open>b2j\<close> knows; \<open>row_ok\<close> and \<open>rows_ok\<close> are
  the invariants of the inner and the outer loop of \<open>find_longest_match\<close> when both
  sequences are the same: the best match found so far lies on the diagonal.
\<close>

definition b2j_step :: "nat \<times> string \<Rightarrow> (string \<rightharpoonup> nat list) \<Rightarrow> (string \<rightharpoonup> nat list)" where
  "b2j_step = (\<lambda>(i, elt) b2j.
     b2j(elt \<mapsto> (case b2j elt of None \<Rightarrow> [] | Some indices \<Rightarrow> indices) @ [i]))"

definition positions_ok :: "string list \<Rightarrow> (string \<rightharpoonup> nat list) \<Rightarrow> bool" where
  "positions_ok b b2j \<longleftrightarrow>
     (\<forall>x js. b2j x = Some js \<longrightarrow> sorted js \<and> set js = {j. j < length b \<and> b ! j = x})"

fun diag_run :: "(string \<rightharpoonup> nat list) \<Rightarrow> string list \<Rightarrow> nat \<Rightarrow> nat" where
  "diag_run b2j a 0 = (if b2j (a ! 0) = None then 0 else 1)"
| "diag_run b2j a (Suc i) = (if b2j (a ! Suc i) = None then 0 else diag_run b2j a i + 1)"

definition prev_run :: "(string \<rightharpoonup> nat list) \<Rightarrow> string list \<Rightarrow> nat \<Rightarrow> nat" where
  "prev_run b2j a i = (if i = 0 then 0 else diag_run b2j a (i - 1))"

definition j2len_get :: "(nat \<rightharpoonup> nat) \<Rightarrow> nat \<Rightarrow> nat" where
  "j2len_get j2len j = (if j = 0 then 0 else case j2len (j - 1) of None \<Rightarrow> 0 | Some len \<Rightarrow> len)"

definition row_ok ::
  "(string \<rightharpoonup> nat list) \<Rightarrow> string list \<Rightarrow> nat \<Rightarrow> nat list \<Rightarrow> (nat \<rightharpoonup> nat) \<Rightarrow> match \<Rightarrow> bool" where
  "row_ok b2j a i js newj2len best \<longleftrightarrow>
     (case best of (besti, bestj, bestsize) \<Rightarrow>
        besti = bestj
        \<and> (\<forall>j'. j' < i \<longrightarrow> diag_run b2j a j' \<le> bestsize)
        \<and> (i \<in> set js \<or> (diag_run b2j a i \<le> bestsize \<and> newj2len i = Some (diag_run b2j a i)))
        \<and> (\<forall>j v. newj2len j = Some v \<longrightarrow> v \<le> diag_run b2j a i \<and> v \<le> diag_run b2j a j))"

definition rows_ok ::
  "(string \<rightharpoonup> nat list) \<Rightarrow> string list \<Rightarrow> nat \<Rightarrow> (nat \<rightharpoonup> nat) \<Rightarrow> match \<Rightarrow> bool" where
  "rows_ok b2j a m j2len best \<longleftrightarrow>
     (case best of (besti, bestj, bestsize) \<Rightarrow>
        besti = bestj \<and> (\<forall>j'. j' < m \<longrightarrow> diag_run b2j a j' \<le> bestsize))
     \<and> (\<forall>j v. j2len j = Some v \<longrightarrow> v \<le> prev_run b2j a m \<and> v \<le> diag_run b2j a j)
     \<and> j2len_get j2len m = prev_run b2j a m"

section \<open>Example states\<close>

text \<open>
  A bot whose two dictionaries are at references 0 and 1, and the heap of scenario 1
  of the specification: \<open>a.txt\<close> gains a line and \<open>b.txt\<close> is new.
\<close>

definition scenario_bot :: bot where
  "scenario_bot = \<lparr>initial_files = 0, current_files = 1\<rparr>"

definition scenario1_heap :: heap where
  "scenario1_heap =
     \<lparr>cells = (\<lambda>r. fmempty)
        (0 := fmupd ''a.txt'' ''hello\<newline>'' fmempty,
         1 := fmupd ''b.txt'' ''new\<newline>''
                (fmupd ''a.txt'' ''hello\<newline>world\<newline>'' fmempty)),
      next_ref = 2\<rparr>"

text \<open>A heap in which \<open>logo.png\<close> is stored as the binary marker before and after.\<close>

definition binary_heap :: heap where
  "binary_heap =
     \<lparr>cells = (\<lambda>r. fmempty)
        (0 := fmupd ''logo.png'' binary_marker fmempty,
         1 := fmupd ''logo.png'' binary_marker fmempty),
      next_ref = 2\<rparr>"

text \<open>A repository listing with a text file and a directory holding an undecodable file.\<close>

definition example_listing :: "content_file list" where
  "example_listing =
     [File ''a.txt'' (Some ''hello\<newline>''), Dir ''img'' [File ''img/logo.png'' None]]"

text \<open>The heap before any bot exists.\<close>

definition empty_heap :: heap where
  "empty_heap = \<lparr>cells = (\<lambda>r. fmempty), next_ref = 0\<rparr>"

text \<open>
  A heap in which the undecodable file \<open>old.bin\<close> was deleted and the undecodable file
  \<open>new.bin\<close> was added.
\<close>

definition binary_swap_heap :: heap where
  "binary_swap_heap =
     \<lparr>cells = (\<lambda>r. fmempty)
        (0 := fmupd ''old.bin'' binary_marker fmempty,
         1 := fmupd ''new.bin'' binary_marker fmempty),
      next_ref = 2\<rparr>"

text \<open>
  A heap in which \<open>x.md\<close>, whose line ends in two spaces, was deleted and \<open>y.txt\<close>,
  whose line ends in a tab, was added.
\<close>

definition trailing_space_heap :: heap where
  "trailing_space_heap =
     \<lparr>cells = (\<lambda>r. fmempty)
        (0 := fmupd ''x.md'' ''keep  \<newline>'' fmempty,
         1 := fmupd ''y.txt'' (''tab'' @ [CHR 0x09] @ ''\<newline>'') fmempty),
      next_ref = 2\<rparr>"

text \<open>
  In the words of the specification, not of the code: a line of \<open>splitlines\<close> with only
  its trailing line terminator removed.
\<close>

definition strip_terminator :: "string \<Rightarrow> string" where
  "strip_terminator line =
     (if length line \<ge> 2 \<and> last (butlast line) = CHR 0x0D \<and> last line = CHR 0x0A
      then butlast (butlast line)
      else if line \<noteq> [] \<and> is_linebreak (last line) then butlast line
      else line)"

section \<open>Properties\<close>

subsection \<open>The snapshot store\<close>

lemma run_call_frame:
  "r \<noteq> current_files self \<Longrightarrow> cells (run_call self c h) r = cells h r"
  by (cases c) (simp_all add: track_file_change_def track_file_deletion_def)

lemma run_calls_frame:
  "r \<noteq> current_files self \<Longrightarrow> cells (run_calls self cs h) r = cells h r"
  by (induction cs arbitrary: h) (simp_all add: run_call_frame)

lemma scenario1_changes:
  "get_changes scenario_bot scenario1_heap = ({''b.txt''}, {''a.txt''}, {})"
  by (auto simp: get_changes_def scenario_bot_def scenario1_heap_def Let_def)

lemma binary_heap_changes:
  "get_changes scenario_bot binary_heap = ({}, {}, {})"
  by (auto simp: get_changes_def scenario_bot_def binary_heap_def Let_def)

text \<open>
  C1. For every pair of mappings \<open>before\<close> and \<open>after\<close> held by the bot,
  \<open>get_changes\<close> returns \<open>added = keys(after) - keys(before)\<close>,
  \<open>deleted = keys(before) - keys(after)\<close> and \<open>modified\<close> = the paths in both whose
  contents differ; the three sets are pairwise disjoint, and together with the
  unchanged common paths they make up \<open>keys(before) \<union> keys(after)\<close>.
\<close>

theorem get_changes_partition:
  assumes "cells h (initial_files self) = before"
    and "cells h (current_files self) = after"
    and "get_changes self h = (added, modified, deleted)"
  shows "added = fmdom' after - fmdom' before
       \<and> deleted = fmdom' before - fmdom' after
       \<and> modified = {p \<in> fmdom' before \<inter> fmdom' after. fmlookup before p \<noteq> fmlookup after p}
       \<and> added \<inter> modified = {} \<and> added \<inter> deleted = {} \<and> modified \<inter> deleted = {}
       \<and> added \<union> modified \<union> deleted
           \<union> {p \<in> fmdom' before \<inter> fmdom' after. fmlookup before p = fmlookup after p}
         = fmdom' before \<union> fmdom' after"
  using assms by (auto simp: get_changes_def Let_def)

theorem get_changes_partition_witness:
  "get_changes scenario_bot scenario1_heap = ({''b.txt''}, {''a.txt''}, {})
   \<and> {''b.txt''} = fmdom' (cells scenario1_heap (current_files scenario_bot))
                      - fmdom' (cells scenario1_heap (initial_files scenario_bot))
   \<and> {''b.txt''} \<inter> {''a.txt''} = ({} :: string set)"
proof -
  note t = get_changes_partition [OF refl refl scenario1_changes]
  have 1: "{''b.txt''} = fmdom' (cells scenario1_heap (current_files scenario_bot))
                      - fmdom' (cells scenario1_heap (initial_files scenario_bot))"
    by (rule conjunct1 [OF t])
  have 2: "{''b.txt''} \<inter> {''a.txt''} = ({} :: string set)"
    by (rule conjunct1 [OF conjunct2 [OF conjunct2 [OF conjunct2 [OF t]]]])
  show ?thesis by (intro conjI scenario1_changes 1 2)
qed

text \<open>
  C6. A path that is present before and after with the binary marker as its content
  on both sides is reported in none of added, modified and deleted. The marker is all
  the store knows of an undecodable file (\<open>get_all_files\<close> stores the marker for every
  file whose decoding raises), so this holds whatever the file's bytes are.
\<close>

theorem binary_marker_unchanged:
  assumes "fmlookup (cells h (initial_files self)) p = Some binary_marker"
    and "fmlookup (cells h (current_files self)) p = Some binary_marker"
    and "get_changes self h = (added, modified, deleted)"
  shows "p \<notin> added \<and> p \<notin> modified \<and> p \<notin> deleted
       \<and> fmlookup (walk [File q None] files) q = Some binary_marker"
  using assms by (auto simp: get_changes_def Let_def)

theorem binary_marker_unchanged_witness:
  "fmlookup (cells binary_heap (initial_files scenario_bot)) ''logo.png'' = Some binary_marker
   \<and> fmlookup (cells binary_heap (current_files scenario_bot)) ''logo.png'' = Some binary_marker
   \<and> ''logo.png'' \<notin> ({} :: string set)"
proof -
  have 1: "fmlookup (cells binary_heap (initial_files scenario_bot)) ''logo.png''
           = Some binary_marker"
    by (simp add: binary_heap_def scenario_bot_def)
  have 2: "fmlookup (cells binary_heap (current_files scenario_bot)) ''logo.png''
           = Some binary_marker"
    by (simp add: binary_heap_def scenario_bot_def)
  have 3: "''logo.png'' \<notin> ({} :: string set)"
    by (rule conjunct1 [OF binary_marker_unchanged [OF 1 2 binary_heap_changes]])
  show ?thesis by (intro conjI 1 2 3)
qed

text \<open>
  C7. \<open>initialize_tracking\<close> leaves the bot with two different dictionary objects,
  both created by the call (no reference that existed before points to either, and
  no dictionary that existed before is touched), both holding the fetched mapping;
  after any sequence of \<open>track_file_change\<close> and \<open>track_file_deletion\<close> calls the
  initial dictionary still holds the fetched mapping, and so does every dictionary other
  than the current one hold what it held.
\<close>

theorem initialize_tracking_no_alias:
  assumes "initialize_tracking self0 contents h0 = (self, h)"
  shows "initial_files self \<noteq> current_files self
       \<and> cells h (initial_files self) = walk contents fmempty
       \<and> cells h (current_files self) = walk contents fmempty
       \<and> next_ref h0 \<le> initial_files self \<and> next_ref h0 \<le> current_files self
       \<and> (\<forall>r < next_ref h0. cells h r = cells h0 r)
       \<and> cells (run_calls self calls h) (initial_files self) = walk contents fmempty
       \<and> (\<forall>r. r \<noteq> current_files self \<longrightarrow> cells (run_calls self calls h) r = cells h r)"
proof -
  from assms have a: "initial_files self \<noteq> current_files self
       \<and> cells h (initial_files self) = walk contents fmempty
       \<and> cells h (current_files self) = walk contents fmempty
       \<and> next_ref h0 \<le> initial_files self \<and> next_ref h0 \<le> current_files self
       \<and> (\<forall>r < next_ref h0. cells h r = cells h0 r)"
    by (auto simp: initialize_tracking_def get_all_files_def dict_copy_def alloc_def Let_def)
  then have "initial_files self \<noteq> current_files self" by (rule conjunct1)
  then have "cells (run_calls self calls h) (initial_files self) = cells h (initial_files self)"
    by (rule run_calls_frame)
  also have "\<dots> = walk contents fmempty" by (rule conjunct1 [OF conjunct2 [OF a]])
  finally have b: "cells (run_calls self calls h) (initial_files self) = walk contents fmempty" .
  have c: "\<forall>r. r \<noteq> current_files self \<longrightarrow> cells (run_calls self calls h) r = cells h r"
    by (intro allI impI) (rule run_calls_frame)
  from a b c show ?thesis by (elim conjE) (intro conjI; assumption)
qed

theorem initialize_tracking_no_alias_witness:
  "cells (run_calls (fst (initialize_tracking scenario_bot example_listing scenario1_heap))
            [Change ''a.txt'' ''bye'', Deletion ''a.txt'', Change ''c.txt'' ''new'']
            (snd (initialize_tracking scenario_bot example_listing scenario1_heap)))
         (initial_files (fst (initialize_tracking scenario_bot example_listing scenario1_heap)))
     = fmupd ''img/logo.png'' ''[Binary file]'' (fmupd ''a.txt'' ''hello\<newline>'' fmempty)"
proof -
  have w: "walk example_listing fmempty
           = fmupd ''img/logo.png'' ''[Binary file]'' (fmupd ''a.txt'' ''hello\<newline>'' fmempty)"
    by (simp add: example_listing_def binary_marker_def)
  note t = initialize_tracking_no_alias [OF prod.collapse [symmetric],
      of scenario_bot example_listing scenario1_heap
         "[Change ''a.txt'' ''bye'', Deletion ''a.txt'', Change ''c.txt'' ''new'']"]
  have "cells (run_calls (fst (initialize_tracking scenario_bot example_listing scenario1_heap))
            [Change ''a.txt'' ''bye'', Deletion ''a.txt'', Change ''c.txt'' ''new'']
            (snd (initialize_tracking scenario_bot example_listing scenario1_heap)))
         (initial_files (fst (initialize_tracking scenario_bot example_listing scenario1_heap)))
     = walk example_listing fmempty"
    by (rule conjunct1 [OF conjunct2 [OF conjunct2 [OF conjunct2 [OF conjunct2
              [OF conjunct2 [OF conjunct2 [OF t]]]]]]])
  then show ?thesis by (simp only: w)
qed

text \<open>
  C8. Deleting a path twice leaves the same state as deleting it once; deleting a path
  that is not in the current dictionary changes nothing (and there is no error to
  raise); recording the same content for a path twice leaves the same state as once.
\<close>

theorem tracking_idempotent:
  "track_file_deletion self p (track_file_deletion self p h) = track_file_deletion self p h
   \<and> (p \<notin> fmdom' (cells h (current_files self)) \<longrightarrow> track_file_deletion self p h = h)
   \<and> track_file_change self p c (track_file_change self p c h) = track_file_change self p c h"
  by (simp add: track_file_deletion_def track_file_change_def)

theorem tracking_idempotent_witness:
  "''zzz'' \<notin> fmdom' (cells scenario1_heap (current_files scenario_bot))
   \<and> track_file_deletion scenario_bot ''zzz'' scenario1_heap = scenario1_heap"
  using tracking_idempotent [of scenario_bot "''zzz''" scenario1_heap]
  by (simp add: scenario_bot_def scenario1_heap_def)

subsection \<open>The patch as a sequence of blocks\<close>

lemma deleted_loop_blocks:
  "set ps \<subseteq> fmdom' initial \<Longrightarrow>
   deleted_loop initial ps patch_lines =
     Inr (patch_lines
          @ concat (map (\<lambda>p. deleted_block p (the (fmlookup initial p)) @ [[]]) ps))"
proof (induction ps arbitrary: patch_lines)
  case Nil
  show ?case by simp
next
  case (Cons p ps)
  then obtain content where "fmlookup initial p = Some content"
    by (auto simp: fmlookup_dom'_iff)
  with Cons show ?case by simp
qed

lemma added_loop_blocks:
  "set ps \<subseteq> fmdom' current \<Longrightarrow>
   added_loop current ps patch_lines =
     Inr (patch_lines
          @ concat (map (\<lambda>p. added_block p (the (fmlookup current p)) @ [[]]) ps))"
proof (induction ps arbitrary: patch_lines)
  case Nil
  show ?case by simp
next
  case (Cons p ps)
  then obtain content where "fmlookup current p = Some content"
    by (auto simp: fmlookup_dom'_iff)
  with Cons show ?case by simp
qed

lemma modified_loop_blocks:
  "set ps \<subseteq> fmdom' initial \<Longrightarrow> set ps \<subseteq> fmdom' current \<Longrightarrow>
   modified_loop initial current ps patch_lines =
     Inr (patch_lines
          @ concat (map (\<lambda>p. modified_block p (the (fmlookup initial p))
                                   (the (fmlookup current p)) @ [[]]) ps))"
proof (induction ps arbitrary: patch_lines)
  case Nil
  show ?case by simp
next
  case (Cons p ps)
  then obtain c1 c2 where "fmlookup initial p = Some c1" "fmlookup current p = Some c2"
    by (auto simp: fmlookup_dom'_iff)
  with Cons show ?case by simp
qed

lemma get_changes_sets:
  "get_changes self h = (added, modified, deleted) \<Longrightarrow>
   finite added \<and> finite modified \<and> finite deleted
   \<and> added \<subseteq> fmdom' (cells h (current_files self))
   \<and> modified \<subseteq> fmdom' (cells h (initial_files self))
   \<and> modified \<subseteq> fmdom' (cells h (current_files self))
   \<and> deleted \<subseteq> fmdom' (cells h (initial_files self))"
  by (auto simp: get_changes_def Let_def)

lemma generate_patch_lines_blocks:
  assumes "get_changes self h = (added, modified, deleted)"
  shows "generate_patch_lines self h =
     Inr (concat (map (\<lambda>p. deleted_block p (the (fmlookup (cells h (initial_files self)) p)) @ [[]])
                   (sorted_list_of_set deleted))
          @ concat (map (\<lambda>p. modified_block p (the (fmlookup (cells h (initial_files self)) p))
                                  (the (fmlookup (cells h (current_files self)) p)) @ [[]])
                     (sorted_list_of_set modified))
          @ concat (map (\<lambda>p. added_block p (the (fmlookup (cells h (current_files self)) p)) @ [[]])
                     (sorted_list_of_set added)))"
proof -
  note s = get_changes_sets [OF assms]
  have d: "set (sorted_list_of_set deleted) \<subseteq> fmdom' (cells h (initial_files self))"
    using s by simp
  have m1: "set (sorted_list_of_set modified) \<subseteq> fmdom' (cells h (initial_files self))"
    using s by simp
  have m2: "set (sorted_list_of_set modified) \<subseteq> fmdom' (cells h (current_files self))"
    using s by simp
  have a: "set (sorted_list_of_set added) \<subseteq> fmdom' (cells h (current_files self))"
    using s by simp
  show ?thesis
    unfolding generate_patch_lines_def assms
    by (simp add: deleted_loop_blocks [OF d] modified_loop_blocks [OF m1 m2]
                  added_loop_blocks [OF a])
qed

lemma generate_patch_lines_total: "\<exists>patch_lines. generate_patch_lines self h = Inr patch_lines"
proof -
  obtain added modified deleted where "get_changes self h = (added, modified, deleted)"
    by (cases "get_changes self h")
  from generate_patch_lines_blocks [OF this] show ?thesis by blast
qed

lemma same_content_changes:
  "cells h (initial_files self) = cells h (current_files self) \<Longrightarrow>
   get_changes self h = ({}, {}, {})"
  by (auto simp: get_changes_def Let_def)

lemma bot_init_changes:
  "get_changes (fst (bot_init h0)) (snd (bot_init h0)) = ({}, {}, {})"
  by (auto simp: get_changes_def bot_init_def alloc_def Let_def)

lemma block_in_concat:
  "p \<in> set ps \<Longrightarrow>
   \<exists>pre post. A @ concat (map (\<lambda>p. g p @ [s]) ps) @ C = pre @ g p @ [s] @ post"
proof -
  assume "p \<in> set ps"
  then obtain xs ys where ps: "ps = xs @ p # ys" by (auto simp: in_set_conv_decomp)
  have "A @ concat (map (\<lambda>p. g p @ [s]) ps) @ C
        = (A @ concat (map (\<lambda>p. g p @ [s]) xs)) @ g p @ [s]
          @ (concat (map (\<lambda>p. g p @ [s]) ys) @ C)"
    by (simp add: ps)
  then show ?thesis by blast
qed

lemma added_block_in_patch:
  assumes ch: "get_changes self h = (added, modified, deleted)" and p: "p \<in> added"
  shows "\<exists>pre post. generate_patch_lines self h =
           Inr (pre @ added_block p (the (fmlookup (cells h (current_files self)) p)) @ [[]] @ post)"
proof -
  have mem: "p \<in> set (sorted_list_of_set added)"
    using p get_changes_sets [OF ch] by simp
  from block_in_concat [OF mem, where C = "[]"
      and A = "concat (map (\<lambda>p. deleted_block p (the (fmlookup (cells h (initial_files self)) p)) @ [[]])
                   (sorted_list_of_set deleted))
          @ concat (map (\<lambda>p. modified_block p (the (fmlookup (cells h (initial_files self)) p))
                                  (the (fmlookup (cells h (current_files self)) p)) @ [[]])
                     (sorted_list_of_set modified))"
      and g = "\<lambda>p. added_block p (the (fmlookup (cells h (current_files self)) p))"
      and s = "[]"]
  show ?thesis
    by (simp add: generate_patch_lines_blocks [OF ch])
qed

lemma deleted_block_in_patch:
  assumes ch: "get_changes self h = (added, modified, deleted)" and p: "p \<in> deleted"
  shows "\<exists>pre post. generate_patch_lines self h =
           Inr (pre @ deleted_block p (the (fmlookup (cells h (initial_files self)) p)) @ [[]] @ post)"
proof -
  have mem: "p \<in> set (sorted_list_of_set deleted)"
    using p get_changes_sets [OF ch] by simp
  from block_in_concat [OF mem, where A = "[]"
      and g = "\<lambda>p. deleted_block p (the (fmlookup (cells h (initial_files self)) p))"
      and s = "[]"
      and C = "concat (map (\<lambda>p. modified_block p (the (fmlookup (cells h (initial_files self)) p))
                                  (the (fmlookup (cells h (current_files self)) p)) @ [[]])
                     (sorted_list_of_set modified))
          @ concat (map (\<lambda>p. added_block p (the (fmlookup (cells h (current_files self)) p)) @ [[]])
                     (sorted_list_of_set added))"]
  show ?thesis
    by (simp add: generate_patch_lines_blocks [OF ch])
qed

lemma modified_block_in_patch:
  assumes ch: "get_changes self h = (added, modified, deleted)" and p: "p \<in> modified"
  shows "\<exists>pre post. generate_patch_lines self h =
           Inr (pre @ modified_block p (the (fmlookup (cells h (initial_files self)) p))
                        (the (fmlookup (cells h (current_files self)) p)) @ [[]] @ post)"
proof -
  have mem: "p \<in> set (sorted_list_of_set modified)"
    using p get_changes_sets [OF ch] by simp
  from block_in_concat [OF mem, where
      g = "\<lambda>p. modified_block p (the (fmlookup (cells h (initial_files self)) p))
                        (the (fmlookup (cells h (current_files self)) p))"
      and s = "[]"
      and A = "concat (map (\<lambda>p. deleted_block p (the (fmlookup (cells h (initial_files self)) p)) @ [[]])
                   (sorted_list_of_set deleted))"
      and C = "concat (map (\<lambda>p. added_block p (the (fmlookup (cells h (current_files self)) p)) @ [[]])
                     (sorted_list_of_set added))"]
  show ?thesis
    by (simp add: generate_patch_lines_blocks [OF ch])
qed

lemma marker_lines:
  "map (\<lambda>line. c @ rstrip line) (splitlines_keepends binary_marker) = [c @ ''[Binary file]'']"
  by (simp add: binary_marker_def splitlines_keepends_def rstrip_def is_space_def
                is_linebreak_def)

lemma binary_swap_changes:
  "get_changes scenario_bot binary_swap_heap = ({''new.bin''}, {}, {''old.bin''})"
  by (auto simp: get_changes_def scenario_bot_def binary_swap_heap_def Let_def)

lemma equal_content_diff:
  "unified_diff (splitlines_keepends ''hello\<newline>'') (splitlines_keepends ''hello\<newline>'') 3 [] = []"
  by code_simp

lemma scenario1_diff:
  "unified_diff (splitlines_keepends ''hello\<newline>'')
     (splitlines_keepends ''hello\<newline>world\<newline>'') 3 []
   = [''--- '', ''+++ '', ''@@ -1 +1,2 @@'', '' hello\<newline>'', ''+world\<newline>'']"
  by code_simp

subsection \<open>The diff of a sequence with itself\<close>

lemma b2j_fold_snoc:
  "fold b2j_step (enumerate 0 (ys @ [y])) Map.empty =
     (fold b2j_step (enumerate 0 ys) Map.empty)
       (y \<mapsto> (case fold b2j_step (enumerate 0 ys) Map.empty y of
                 None \<Rightarrow> [] | Some indices \<Rightarrow> indices) @ [length ys])"
  by (simp add: enumerate_append_eq b2j_step_def)

lemma b2j_fold_dom:
  "x \<in> set b \<Longrightarrow> fold b2j_step (enumerate 0 b) Map.empty x \<noteq> None"
proof (induction b rule: rev_induct)
  case Nil
  then show ?case by simp
next
  case (snoc y ys)
  then show ?case by (cases "x = y") (simp_all add: b2j_fold_snoc)
qed

lemma b2j_fold_positions:
  "fold b2j_step (enumerate 0 b) Map.empty x = Some js \<Longrightarrow>
   sorted js \<and> set js = {j. j < length b \<and> b ! j = x}"
proof (induction b arbitrary: js rule: rev_induct)
  case Nil
  then show ?case by simp
next
  case (snoc y ys)
  let ?m = "fold b2j_step (enumerate 0 ys) Map.empty"
  show ?case
  proof (cases "x = y")
    case False
    then have "?m x = Some js" using snoc.prems by (simp add: b2j_fold_snoc)
    from snoc.IH [OF this] have js: "sorted js" "set js = {j. j < length ys \<and> ys ! j = x}"
      by simp_all
    have "{j. j < length (ys @ [y]) \<and> (ys @ [y]) ! j = x} = {j. j < length ys \<and> ys ! j = x}"
      using False by (auto simp: nth_append less_Suc_eq)
    with js show ?thesis by simp
  next
    case True
    show ?thesis
    proof (cases "?m y")
      case None
      then have "y \<notin> set ys" using b2j_fold_dom [of y ys] by blast
      then have "{j. j < length (ys @ [y]) \<and> (ys @ [y]) ! j = y} = {length ys}"
        by (auto simp: nth_append less_Suc_eq)
      moreover have "js = [length ys]"
        using snoc.prems None True by (simp add: b2j_fold_snoc)
      ultimately show ?thesis using True by simp
    next
      case (Some old)
      from snoc.IH [of old] Some True
      have old: "sorted old" "set old = {j. j < length ys \<and> ys ! j = y}" by simp_all
      have js: "js = old @ [length ys]"
        using snoc.prems Some True by (simp add: b2j_fold_snoc)
      have "{j. j < length (ys @ [y]) \<and> (ys @ [y]) ! j = y}
            = insert (length ys) {j. j < length ys \<and> ys ! j = y}"
        by (auto simp: nth_append less_Suc_eq)
      moreover have "sorted (old @ [length ys])"
        using old by (auto simp: sorted_append)
      ultimately show ?thesis using True js old by simp
    qed
  qed
qed

lemma chain_b_positions: "positions_ok b (chain_b b)"
proof -
  have c: "chain_b b =
     (let b2j = fold b2j_step (enumerate 0 b) Map.empty; n = length b
      in if n \<ge> 200
         then (let ntest = n div 100 + 1
               in (\<lambda>elt. case b2j elt of
                            None \<Rightarrow> None
                          | Some idxs \<Rightarrow> if length idxs > ntest then None else Some idxs))
         else b2j)"
    by (simp add: chain_b_def b2j_step_def)
  show ?thesis
    unfolding positions_ok_def
  proof (intro allI impI)
    fix x js assume a: "chain_b b x = Some js"
    have "fold b2j_step (enumerate 0 b) Map.empty x = Some js"
      using a unfolding c Let_def by (simp split: if_splits option.splits)
    then show "sorted js \<and> set js = {j. j < length b \<and> b ! j = x}"
      by (rule b2j_fold_positions)
  qed
qed

lemma diag_run_prev:
  "diag_run b2j a i = (if b2j (a ! i) = None then 0 else prev_run b2j a i + 1)"
  by (cases i) (simp_all add: prev_run_def)

lemma scan_row_step:
  "scan_row i blo bhi j2len (j # js) newj2len (besti, bestj, bestsize) =
     (if j < blo then scan_row i blo bhi j2len js newj2len (besti, bestj, bestsize)
      else if j \<ge> bhi then (newj2len, (besti, bestj, bestsize))
      else if j2len_get j2len j + 1 > bestsize
           then scan_row i blo bhi j2len js (newj2len(j \<mapsto> j2len_get j2len j + 1))
                  (i + 1 - (j2len_get j2len j + 1), j + 1 - (j2len_get j2len j + 1),
                   j2len_get j2len j + 1)
           else scan_row i blo bhi j2len js (newj2len(j \<mapsto> j2len_get j2len j + 1))
                  (besti, bestj, bestsize))"
  by (simp add: j2len_get_def Let_def)

lemma scan_row_diagonal:
  assumes np: "b2j (a ! i) \<noteq> None"
    and old: "\<And>j v. j2len j = Some v \<Longrightarrow> v \<le> prev_run b2j a i \<and> v \<le> diag_run b2j a j"
    and dg: "j2len_get j2len i = prev_run b2j a i"
  shows "sorted js \<Longrightarrow> (\<And>j. j \<in> set js \<Longrightarrow> j < length a \<and> a ! j = a ! i)
    \<Longrightarrow> row_ok b2j a i js newj2len best
    \<Longrightarrow> scan_row i 0 (length a) j2len js newj2len best = (newj2len', best')
    \<Longrightarrow> row_ok b2j a i [] newj2len' best'"
proof (induction js arbitrary: newj2len best)
  case Nil
  then show ?case by simp
next
  case (Cons j js)
  obtain besti bestj bestsize where best: "best = (besti, bestj, bestsize)"
    by (cases best)
  let ?k = "j2len_get j2len j + 1"
  have j: "j < length a" "a ! j = a ! i" using Cons.prems(2) by simp_all
  have srt: "sorted js" using Cons.prems(1) by simp
  have mem: "\<And>j'. j' \<in> set js \<Longrightarrow> j' < length a \<and> a ! j' = a ! i"
    using Cons.prems(2) by simp
  have di: "diag_run b2j a i = prev_run b2j a i + 1"
    using np by (simp add: diag_run_prev)
  have dj: "diag_run b2j a j = prev_run b2j a j + 1"
    using np j by (simp add: diag_run_prev)
  have get_le: "j2len_get j2len j \<le> prev_run b2j a i \<and> j2len_get j2len j \<le> prev_run b2j a j"
  proof (cases "j = 0")
    case True
    then show ?thesis by (simp add: j2len_get_def)
  next
    case False
    show ?thesis
    proof (cases "j2len (j - 1)")
      case None
      then show ?thesis using False by (simp add: j2len_get_def)
    next
      case (Some v)
      from old [OF Some] show ?thesis using False Some by (simp add: j2len_get_def prev_run_def)
    qed
  qed
  then have k_le: "?k \<le> diag_run b2j a i" "?k \<le> diag_run b2j a j"
    using di dj by simp_all
  have ok: "row_ok b2j a i (j # js) newj2len (besti, bestj, bestsize)"
    using Cons.prems(3) best by simp
  then have diag: "besti = bestj"
    and below: "\<And>j'. j' < i \<Longrightarrow> diag_run b2j a j' \<le> bestsize"
    and pend: "i \<in> set (j # js) \<or> (diag_run b2j a i \<le> bestsize
                 \<and> newj2len i = Some (diag_run b2j a i))"
    and new: "\<And>j' v. newj2len j' = Some v \<Longrightarrow> v \<le> diag_run b2j a i \<and> v \<le> diag_run b2j a j'"
    by (simp_all add: row_ok_def)
  have new': "\<And>j' v. (newj2len(j \<mapsto> ?k)) j' = Some v
                \<Longrightarrow> v \<le> diag_run b2j a i \<and> v \<le> diag_run b2j a j'"
    using new k_le by (auto split: if_splits)
  consider (lt) "j < i" | (eq) "j = i" | (gt) "i < j" by linarith
  then show ?case
  proof cases
    case lt
    then have no: "\<not> bestsize < ?k" using below [OF lt] k_le(2) by simp
    have i_in: "i \<in> set js \<or> (diag_run b2j a i \<le> bestsize
                 \<and> (newj2len(j \<mapsto> ?k)) i = Some (diag_run b2j a i))"
      using pend lt by auto
    have ok': "row_ok b2j a i js (newj2len(j \<mapsto> ?k)) (besti, bestj, bestsize)"
      using diag below i_in new' by (simp add: row_ok_def)
    have "scan_row i 0 (length a) j2len js (newj2len(j \<mapsto> ?k)) (besti, bestj, bestsize)
          = (newj2len', best')"
      using Cons.prems(4) no j(1) by (simp add: best scan_row_step del: scan_row.simps)
    from Cons.IH [OF srt mem ok' this] show ?thesis .
  next
    case eq
    have k: "?k = diag_run b2j a i" using dg di eq by simp
    show ?thesis
    proof (cases "bestsize < ?k")
      case True
      have b1: "\<And>j'. j' < i \<Longrightarrow> diag_run b2j a j' \<le> ?k"
      proof -
        fix j' assume "j' < i"
        from below [OF this] True show "diag_run b2j a j' \<le> ?k" by linarith
      qed
      have b3: "(newj2len(j \<mapsto> ?k)) i = Some (diag_run b2j a i)"
        using k eq by simp
      have ok': "row_ok b2j a i js (newj2len(j \<mapsto> ?k)) (i + 1 - ?k, j + 1 - ?k, ?k)"
        unfolding row_ok_def prod.case
      proof (intro conjI allI impI)
        show "i + 1 - ?k = j + 1 - ?k" using eq by simp
        show "\<And>j'. j' < i \<Longrightarrow> diag_run b2j a j' \<le> ?k" by (rule b1)
        show "i \<in> set js \<or> (diag_run b2j a i \<le> ?k
                \<and> (newj2len(j \<mapsto> ?k)) i = Some (diag_run b2j a i))"
          using b3 k eq by simp
        show "\<And>j' v. (newj2len(j \<mapsto> ?k)) j' = Some v \<Longrightarrow> v \<le> diag_run b2j a i"
          using new' by blast
        show "\<And>j' v. (newj2len(j \<mapsto> ?k)) j' = Some v \<Longrightarrow> v \<le> diag_run b2j a j'"
          using new' by blast
      qed
      have "scan_row i 0 (length a) j2len js (newj2len(j \<mapsto> ?k)) (i + 1 - ?k, j + 1 - ?k, ?k)
            = (newj2len', best')"
        using Cons.prems(4) True j(1) by (simp add: best scan_row_step del: scan_row.simps)
      from Cons.IH [OF srt mem ok' this] show ?thesis .
    next
      case False
      have b3: "(newj2len(j \<mapsto> ?k)) i = Some (diag_run b2j a i)"
        using k eq by simp
      have ok': "row_ok b2j a i js (newj2len(j \<mapsto> ?k)) (besti, bestj, bestsize)"
        unfolding row_ok_def prod.case
      proof (intro conjI allI impI)
        show "besti = bestj" by (rule diag)
        show "\<And>j'. j' < i \<Longrightarrow> diag_run b2j a j' \<le> bestsize" by (rule below)
        show "i \<in> set js \<or> (diag_run b2j a i \<le> bestsize
                \<and> (newj2len(j \<mapsto> ?k)) i = Some (diag_run b2j a i))"
          using b3 k False eq by simp
        show "\<And>j' v. (newj2len(j \<mapsto> ?k)) j' = Some v \<Longrightarrow> v \<le> diag_run b2j a i"
          using new' by blast
        show "\<And>j' v. (newj2len(j \<mapsto> ?k)) j' = Some v \<Longrightarrow> v \<le> diag_run b2j a j'"
          using new' by blast
      qed
      have "scan_row i 0 (length a) j2len js (newj2len(j \<mapsto> ?k)) (besti, bestj, bestsize)
            = (newj2len', best')"
        using Cons.prems(4) False j(1) by (simp add: best scan_row_step del: scan_row.simps)
      from Cons.IH [OF srt mem ok' this] show ?thesis .
    qed
  next
    case gt
    have "i \<notin> set (j # js)" using Cons.prems(1) gt by auto
    with pend have fin: "diag_run b2j a i \<le> bestsize" "newj2len i = Some (diag_run b2j a i)"
      by simp_all
    then have no: "\<not> bestsize < ?k" using k_le(1) by simp
    have b3: "(newj2len(j \<mapsto> ?k)) i = Some (diag_run b2j a i)"
      using fin(2) gt by simp
    have ok': "row_ok b2j a i js (newj2len(j \<mapsto> ?k)) (besti, bestj, bestsize)"
      unfolding row_ok_def prod.case
    proof (intro conjI allI impI)
      show "besti = bestj" by (rule diag)
      show "\<And>j'. j' < i \<Longrightarrow> diag_run b2j a j' \<le> bestsize" by (rule below)
      show "i \<in> set js \<or> (diag_run b2j a i \<le> bestsize
              \<and> (newj2len(j \<mapsto> ?k)) i = Some (diag_run b2j a i))"
        using b3 fin(1) by simp
      show "\<And>j' v. (newj2len(j \<mapsto> ?k)) j' = Some v \<Longrightarrow> v \<le> diag_run b2j a i"
        using new' by blast
      show "\<And>j' v. (newj2len(j \<mapsto> ?k)) j' = Some v \<Longrightarrow> v \<le> diag_run b2j a j'"
        using new' by blast
    qed
    have "scan_row i 0 (length a) j2len js (newj2len(j \<mapsto> ?k)) (besti, bestj, bestsize)
          = (newj2len', best')"
      using Cons.prems(4) no j(1) by (simp add: best scan_row_step del: scan_row.simps)
    from Cons.IH [OF srt mem ok' this] show ?thesis .
  qed
qed

lemma scan_rows_diagonal:
  assumes pos: "positions_ok a b2j"
  shows "rows_ok b2j a m j2len best \<Longrightarrow>
         fst (scan_rows a b2j 0 (length a) [m..<length a] j2len best)
         = fst (snd (scan_rows a b2j 0 (length a) [m..<length a] j2len best))"
proof (induction "length a - m" arbitrary: m j2len best)
  case 0
  then show ?case by (cases best) (simp add: rows_ok_def)
next
  case (Suc n)
  then have lt: "m < length a" by simp
  obtain besti bestj bestsize where best: "best = (besti, bestj, bestsize)"
    by (cases best)
  from Suc.prems have diag: "besti = bestj"
    and below: "\<And>j'. j' < m \<Longrightarrow> diag_run b2j a j' \<le> bestsize"
    and old: "\<And>j v. j2len j = Some v \<Longrightarrow> v \<le> prev_run b2j a m \<and> v \<le> diag_run b2j a j"
    and dg: "j2len_get j2len m = prev_run b2j a m"
    by (simp_all add: rows_ok_def best)
  have n: "n = length a - Suc m" using Suc.hyps(2) by simp
  show ?case
  proof (cases "b2j (a ! m)")
    case None
    have d0: "diag_run b2j a m = 0" using None by (simp add: diag_run_prev)
    have b: "\<And>j'. j' < Suc m \<Longrightarrow> diag_run b2j a j' \<le> bestsize"
    proof -
      fix j' assume "j' < Suc m"
      then consider "j' < m" | "j' = m" by linarith
      then show "diag_run b2j a j' \<le> bestsize" using below d0 by cases simp_all
    qed
    have ok: "rows_ok b2j a (Suc m) Map.empty best"
      unfolding rows_ok_def best prod.case
      using diag b d0 by (simp add: j2len_get_def prev_run_def)
    from Suc.hyps(1) [OF n ok] show ?thesis
      using lt None by (simp add: upt_conv_Cons)
  next
    case (Some js)
    from pos Some have js: "sorted js" "set js = {j. j < length a \<and> a ! j = a ! m}"
      by (simp_all add: positions_ok_def)
    have np: "b2j (a ! m) \<noteq> None" using Some by simp
    have mem: "\<And>j. j \<in> set js \<Longrightarrow> j < length a \<and> a ! j = a ! m" using js(2) by simp
    have m_in: "m \<in> set js" using js(2) lt by simp
    have start: "row_ok b2j a m js Map.empty best"
      unfolding row_ok_def best prod.case using diag below m_in by simp
    obtain newj2len best' where
      row: "scan_row m 0 (length a) j2len js Map.empty best = (newj2len, best')"
      by (cases "scan_row m 0 (length a) j2len js Map.empty best")
    from scan_row_diagonal [OF np old dg js(1) mem start row]
    have fin: "row_ok b2j a m [] newj2len best'" .
    obtain bi bj bs where best': "best' = (bi, bj, bs)" by (cases best')
    from fin have f1: "bi = bj"
      and f2: "\<And>j'. j' < m \<Longrightarrow> diag_run b2j a j' \<le> bs"
      and f3: "diag_run b2j a m \<le> bs" "newj2len m = Some (diag_run b2j a m)"
      and f4: "\<And>j v. newj2len j = Some v \<Longrightarrow> v \<le> diag_run b2j a m \<and> v \<le> diag_run b2j a j"
      by (simp_all add: row_ok_def best')
    have b: "\<And>j'. j' < Suc m \<Longrightarrow> diag_run b2j a j' \<le> bs"
    proof -
      fix j' assume "j' < Suc m"
      then consider "j' < m" | "j' = m" by linarith
      then show "diag_run b2j a j' \<le> bs" using f2 f3(1) by cases simp_all
    qed
    have ok: "rows_ok b2j a (Suc m) newj2len best'"
      unfolding rows_ok_def best' prod.case
    proof (intro conjI allI impI)
      show "bi = bj" by (rule f1)
      show "\<And>j'. j' < Suc m \<Longrightarrow> diag_run b2j a j' \<le> bs" by (rule b)
      show "\<And>j v. newj2len j = Some v \<Longrightarrow> v \<le> prev_run b2j a (Suc m)"
        using f4 by (simp add: prev_run_def)
      show "\<And>j v. newj2len j = Some v \<Longrightarrow> v \<le> diag_run b2j a j"
        using f4 by blast
      show "j2len_get newj2len (Suc m) = prev_run b2j a (Suc m)"
        using f3(2) by (simp add: j2len_get_def prev_run_def)
    qed
    from Suc.hyps(1) [OF n ok] show ?thesis
      using lt Some row by (simp add: upt_conv_Cons)
  qed
qed

lemma extend_back_diagonal:
  "extend_back a a 0 0 False (s, s, k) = (0, 0, k + s)"
proof (induction s arbitrary: k)
  case 0
  show ?case by (subst extend_back.simps) simp
next
  case (Suc s)
  show ?case
    by (subst extend_back.simps) (simp add: bjunk_def Suc)
qed

lemma extend_forward_diagonal:
  "k \<le> n \<Longrightarrow> extend_forward a a n n False (0, 0, k) = (0, 0, n)"
proof (induction "n - k" arbitrary: k)
  case 0
  then show ?case by (subst extend_forward.simps) simp
next
  case (Suc d)
  have lt: "k < n" using Suc.hyps(2) by simp
  have "d = n - (k + 1)" using Suc.hyps(2) by simp
  moreover have "k + 1 \<le> n" using lt by simp
  ultimately have "extend_forward a a n n False (0, 0, k + 1) = (0, 0, n)"
    by (rule Suc.hyps(1))
  then show ?case
    using lt by (subst extend_forward.simps) (simp add: bjunk_def)
qed

lemma extend_junk_nothing:
  "extend_back a b alo blo True best = best"
  "extend_forward a b ahi bhi True best = best"
proof -
  obtain i j k where best: "best = (i, j, k)" by (cases best)
  show "extend_back a b alo blo True best = best"
    unfolding best by (subst extend_back.simps) (simp add: bjunk_def)
  show "extend_forward a b ahi bhi True best = best"
    unfolding best by (subst extend_forward.simps) (simp add: bjunk_def)
qed

lemma find_longest_match_same:
  "find_longest_match a a (chain_b a) 0 (length a) 0 (length a) = (0, 0, length a)"
proof -
  let ?b2j = "chain_b a"
  let ?best = "scan_rows a ?b2j 0 (length a) [0..<length a] Map.empty (0, 0, 0)"
  obtain s s' k where best: "?best = (s, s', k)" by (cases "?best")
  have start: "rows_ok ?b2j a 0 Map.empty (0, 0, 0)"
    by (simp add: rows_ok_def j2len_get_def prev_run_def)
  from scan_rows_diagonal [OF chain_b_positions start] best have s: "s' = s" by simp
  have r0: "in_range 0 (length a) ?best"
    by (rule scan_rows_in_range) (simp_all add: in_range_def)
  have bk: "extend_back a a 0 0 False ?best = (0, 0, k + s)"
    unfolding best s by (rule extend_back_diagonal)
  have "in_range 0 (length a) (extend_back a a 0 0 False ?best)"
    by (rule extend_back_in_range [OF r0])
  then have le: "k + s \<le> length a" unfolding bk by (auto simp: in_range_def)
  show ?thesis
    unfolding find_longest_match_def extend_junk_nothing bk
    by (rule extend_forward_diagonal [OF le])
qed

lemma get_matching_blocks_same:
  "get_matching_blocks a a =
     (if a = [] then [(0, 0, 0)] else [(0, 0, length a), (length a, length a, 0)])"
  by (simp add: get_matching_blocks_def find_longest_match_same merge_adjacent_def Let_def)

lemma get_opcodes_same:
  "get_opcodes a a = (if a = [] then [] else [(Equal, 0, length a, 0, length a)])"
  by (simp add: get_opcodes_def get_matching_blocks_same opcode_step_def Let_def)

lemma get_grouped_opcodes_same: "get_grouped_opcodes a a n = []"
  by (simp add: get_grouped_opcodes_def get_opcodes_same trim_first_def trim_last_def
                group_step_def Let_def) arith

lemma unified_diff_same: "unified_diff a a n lineterm = []"
  by (simp add: unified_diff_def get_grouped_opcodes_same)

subsection \<open>The claims about the patch\<close>

text \<open>
  C2 (the code departs from it). At scenario 1 of the specification the list
  \<open>patch_lines\<close> holds the hunk lines \<open>'' hello\<newline>''\<close> and \<open>''+world\<newline>''\<close> with their line
  feeds, because the lines that \<open>unified_diff\<close> receives keep their ends; joined with
  line feeds, the patch has an empty line after each of them inside the hunk.
\<close>

theorem scenario1_patch:
  "generate_patch_lines scenario_bot scenario1_heap =
     Inr [''--- a/a.txt'', ''+++ b/a.txt'', ''@@ -1 +1,2 @@'', '' hello\<newline>'', ''+world\<newline>'', [],
          ''--- /dev/null'', ''+++ b/b.txt'', ''+new'', []]
   \<and> generate_patch scenario_bot scenario1_heap =
     Inr ''--- a/a.txt\<newline>+++ b/a.txt\<newline>@@ -1 +1,2 @@\<newline> hello\<newline>\<newline>+world\<newline>\<newline>\<newline>--- /dev/null\<newline>+++ b/b.txt\<newline>+new\<newline>''"
proof -
  have a: "added_block ''b.txt'' ''new\<newline>'' = [''--- /dev/null'', ''+++ b/b.txt'', ''+new'']"
    by code_simp
  have m: "modified_block ''a.txt'' ''hello\<newline>'' ''hello\<newline>world\<newline>''
           = [''--- a/a.txt'', ''+++ b/a.txt'', ''@@ -1 +1,2 @@'', '' hello\<newline>'', ''+world\<newline>'']"
    by (simp add: modified_block_def scenario1_diff)
  have l: "generate_patch_lines scenario_bot scenario1_heap =
     Inr [''--- a/a.txt'', ''+++ b/a.txt'', ''@@ -1 +1,2 @@'', '' hello\<newline>'', ''+world\<newline>'', [],
          ''--- /dev/null'', ''+++ b/b.txt'', ''+new'', []]"
    unfolding generate_patch_lines_blocks [OF scenario1_changes]
    by (simp add: scenario_bot_def scenario1_heap_def a m)
  show ?thesis by (simp add: generate_patch_def l)
qed

text \<open>
  C3 (the code departs from it). A deleted file whose only line ends in two spaces and
  an added file whose only line ends in a tab: \<open>rstrip()\<close> removes the spaces and the tab
  together with the line feed, where removing only the line terminator would keep them.
\<close>

theorem trailing_whitespace_patch:
  "generate_patch scenario_bot trailing_space_heap =
     Inr ''--- a/x.md\<newline>+++ /dev/null\<newline>-keep\<newline>\<newline>--- /dev/null\<newline>+++ b/y.txt\<newline>+tab\<newline>''
   \<and> map strip_terminator (splitlines_keepends ''keep  \<newline>'') = [''keep  '']
   \<and> map strip_terminator (splitlines_keepends (''tab'' @ [CHR 0x09] @ ''\<newline>''))
       = [''tab'' @ [CHR 0x09]]"
proof -
  have ch: "get_changes scenario_bot trailing_space_heap = ({''y.txt''}, {}, {''x.md''})"
    by (auto simp: get_changes_def scenario_bot_def trailing_space_heap_def Let_def)
  have d: "deleted_block ''x.md'' ''keep  \<newline>'' = [''--- a/x.md'', ''+++ /dev/null'', ''-keep'']"
    by code_simp
  have a: "added_block ''y.txt'' (''tab'' @ [CHR 0x09] @ ''\<newline>'')
           = [''--- /dev/null'', ''+++ b/y.txt'', ''+tab'']"
    by code_simp
  have l: "generate_patch_lines scenario_bot trailing_space_heap =
     Inr [''--- a/x.md'', ''+++ /dev/null'', ''-keep'', [],
          ''--- /dev/null'', ''+++ b/y.txt'', ''+tab'', []]"
    unfolding generate_patch_lines_blocks [OF ch]
    using a d by (simp add: scenario_bot_def trailing_space_heap_def)
  have 1: "generate_patch scenario_bot trailing_space_heap =
     Inr ''--- a/x.md\<newline>+++ /dev/null\<newline>-keep\<newline>\<newline>--- /dev/null\<newline>+++ b/y.txt\<newline>+tab\<newline>''"
    by (simp add: generate_patch_def l)
  have 2: "map strip_terminator (splitlines_keepends ''keep  \<newline>'') = [''keep  '']"
    by code_simp
  have 3: "map strip_terminator (splitlines_keepends (''tab'' @ [CHR 0x09] @ ''\<newline>''))
       = [''tab'' @ [CHR 0x09]]"
    by code_simp
  show ?thesis by (intro conjI 1 2 3)
qed

text \<open>
  C4. The block of a modified path is the two header lines \<open>--- a/<path>\<close> and
  \<open>+++ b/<path>\<close> followed by the output of \<open>unified_diff\<close> on the two contents, split
  into lines, with 3 lines of context, without its first two lines. When the diff puts
  out nothing the block is the two header lines alone. For a path in \<open>modified\<close> the
  block is in the patch, followed by the separator, and the patch is produced without
  an error. A call with the same content on both sides gives the two header lines
  alone.
\<close>

theorem modified_block_shape:
  "modified_block p initial_content current_content =
     [''--- a/'' @ p, ''+++ b/'' @ p]
     @ drop 2 (unified_diff (splitlines_keepends initial_content)
                 (splitlines_keepends current_content) 3 [])
   \<and> (unified_diff (splitlines_keepends initial_content)
         (splitlines_keepends current_content) 3 [] = []
      \<longrightarrow> modified_block p initial_content current_content = [''--- a/'' @ p, ''+++ b/'' @ p])
   \<and> (get_changes self h = (added, modified, deleted) \<and> p \<in> modified
      \<longrightarrow> (\<exists>pre post. generate_patch_lines self h =
             Inr (pre @ modified_block p (the (fmlookup (cells h (initial_files self)) p))
                          (the (fmlookup (cells h (current_files self)) p)) @ [[]] @ post)))
   \<and> modified_block p content content = [''--- a/'' @ p, ''+++ b/'' @ p]"
proof -
  have 1: "modified_block p initial_content current_content =
     [''--- a/'' @ p, ''+++ b/'' @ p]
     @ drop 2 (unified_diff (splitlines_keepends initial_content)
                 (splitlines_keepends current_content) 3 [])"
    by (simp add: modified_block_def Let_def)
  have 2: "unified_diff (splitlines_keepends initial_content)
         (splitlines_keepends current_content) 3 [] = []
      \<longrightarrow> modified_block p initial_content current_content = [''--- a/'' @ p, ''+++ b/'' @ p]"
    by (simp add: modified_block_def Let_def)
  have 3: "get_changes self h = (added, modified, deleted) \<and> p \<in> modified
      \<longrightarrow> (\<exists>pre post. generate_patch_lines self h =
             Inr (pre @ modified_block p (the (fmlookup (cells h (initial_files self)) p))
                          (the (fmlookup (cells h (current_files self)) p)) @ [[]] @ post))"
    using modified_block_in_patch by blast
  have 4: "modified_block p content content = [''--- a/'' @ p, ''+++ b/'' @ p]"
    by (simp add: modified_block_def unified_diff_same)
  show ?thesis by (intro conjI 1 2 3 4)
qed

theorem modified_block_shape_witness:
  "unified_diff (splitlines_keepends ''hello\<newline>'') (splitlines_keepends ''hello\<newline>'') 3 [] = []
   \<and> modified_block ''a.txt'' ''hello\<newline>'' ''hello\<newline>'' = [''--- a/a.txt'', ''+++ b/a.txt'']
   \<and> get_changes scenario_bot scenario1_heap = ({''b.txt''}, {''a.txt''}, {})
   \<and> ''a.txt'' \<in> {''a.txt''}
   \<and> (\<exists>pre post. generate_patch_lines scenario_bot scenario1_heap =
         Inr (pre @ modified_block ''a.txt''
                      (the (fmlookup (cells scenario1_heap (initial_files scenario_bot)) ''a.txt''))
                      (the (fmlookup (cells scenario1_heap (current_files scenario_bot)) ''a.txt''))
                @ [[]] @ post))"
proof -
  note t = modified_block_shape [of "''a.txt''" "''hello\<newline>''" "''hello\<newline>''" scenario_bot
      scenario1_heap "{''b.txt''}" "{''a.txt''}" "{}"]
  have 2: "modified_block ''a.txt'' ''hello\<newline>'' ''hello\<newline>'' = [''--- a/a.txt'', ''+++ b/a.txt'']"
    using conjunct1 [OF conjunct2 [OF t]] equal_content_diff by simp
  have m: "''a.txt'' \<in> {''a.txt''}" by simp
  have 3: "\<exists>pre post. generate_patch_lines scenario_bot scenario1_heap =
         Inr (pre @ modified_block ''a.txt''
                      (the (fmlookup (cells scenario1_heap (initial_files scenario_bot)) ''a.txt''))
                      (the (fmlookup (cells scenario1_heap (current_files scenario_bot)) ''a.txt''))
                @ [[]] @ post)"
    by (rule mp [OF conjunct1 [OF conjunct2 [OF conjunct2 [OF t]]]
                 conjI [OF scenario1_changes m]])
  show ?thesis by (intro conjI equal_content_diff 2 scenario1_changes m 3)
qed

text \<open>
  C5. When the initial and the current dictionary have the same keys and the same
  content on every key, \<open>generate_patch\<close> returns the empty string and the summary has
  its three categories empty; neither raises.
\<close>

theorem same_content_empty_patch:
  assumes "cells h (initial_files self) = cells h (current_files self)"
  shows "generate_patch self h = Inr []
       \<and> get_changed_files_summary self h =
           Inr (fmap_of_list [(''added'', fmempty), (''modified'', fmempty),
                              (''deleted'', fmempty)])"
  using same_content_changes [OF assms]
  by (simp add: generate_patch_def generate_patch_lines_def get_changed_files_summary_def)

theorem same_content_empty_patch_witness:
  "cells binary_heap (initial_files scenario_bot) = cells binary_heap (current_files scenario_bot)
   \<and> generate_patch scenario_bot binary_heap = Inr []"
proof -
  have 1: "cells binary_heap (initial_files scenario_bot)
           = cells binary_heap (current_files scenario_bot)"
    by (simp add: binary_heap_def scenario_bot_def)
  have 2: "generate_patch scenario_bot binary_heap = Inr []"
    by (rule conjunct1 [OF same_content_empty_patch [OF 1]])
  show ?thesis by (intro conjI 1 2)
qed

text \<open>
  C9 as stated fails: on a bot whose tracking was never initialised (the mappings are
  missing), \<open>generate_patch\<close> returns the empty patch and \<open>get_changes\<close> three empty
  sets, and no error is raised.
\<close>

theorem uninitialised_bot_counterexample:
  "generate_patch (fst (bot_init empty_heap)) (snd (bot_init empty_heap)) = Inr []
   \<and> get_changes (fst (bot_init empty_heap)) (snd (bot_init empty_heap)) = ({}, {}, {})"
  using bot_init_changes [of empty_heap]
  by (simp add: generate_patch_def generate_patch_lines_def)

text \<open>
  C9 as amended. \<open>get_changes\<close> and \<open>generate_patch\<close> take no mapping; they read the
  bot's two dictionaries, which the constructor sets to empty dictionaries. In every
  state \<open>generate_patch\<close> returns a patch and raises nothing, and on a bot that was only
  constructed the patch is empty and the three sets are empty.
\<close>

theorem generate_patch_never_raises:
  "(\<exists>patch. generate_patch self h = Inr patch)
   \<and> generate_patch (fst (bot_init h0)) (snd (bot_init h0)) = Inr []
   \<and> get_changes (fst (bot_init h0)) (snd (bot_init h0)) = ({}, {}, {})"
proof -
  obtain patch_lines where "generate_patch_lines self h = Inr patch_lines"
    using generate_patch_lines_total by blast
  then have 1: "\<exists>patch. generate_patch self h = Inr patch"
    by (simp add: generate_patch_def)
  have 2: "generate_patch (fst (bot_init h0)) (snd (bot_init h0)) = Inr []"
    using bot_init_changes [of h0] by (simp add: generate_patch_def generate_patch_lines_def)
  show ?thesis by (intro conjI 1 2 bot_init_changes)
qed

text \<open>
  C10. For an added path whose content is the binary marker the patch holds the block
  \<open>--- /dev/null\<close>, \<open>+++ b/<path>\<close>, \<open>+[Binary file]\<close>; for a deleted path whose content
  is the marker it holds \<open>--- a/<path>\<close>, \<open>+++ /dev/null\<close>, \<open>-[Binary file]\<close>; each is
  followed by the separator.
\<close>

theorem binary_marker_block:
  assumes ch: "get_changes self h = (added, modified, deleted)"
  shows "(p \<in> added \<and> fmlookup (cells h (current_files self)) p = Some binary_marker
          \<longrightarrow> (\<exists>pre post. generate_patch_lines self h =
                 Inr (pre @ [''--- /dev/null'', ''+++ b/'' @ p, ''+[Binary file]'', []] @ post)))
       \<and> (p \<in> deleted \<and> fmlookup (cells h (initial_files self)) p = Some binary_marker
          \<longrightarrow> (\<exists>pre post. generate_patch_lines self h =
                 Inr (pre @ [''--- a/'' @ p, ''+++ /dev/null'', ''-[Binary file]'', []] @ post)))"
proof (intro conjI impI)
  assume a: "p \<in> added \<and> fmlookup (cells h (current_files self)) p = Some binary_marker"
  then have b: "added_block p (the (fmlookup (cells h (current_files self)) p))
                = [''--- /dev/null'', ''+++ b/'' @ p, ''+[Binary file]'']"
    using marker_lines [of "''+''"] by (simp add: added_block_def)
  from a have "p \<in> added" by (rule conjunct1)
  from added_block_in_patch [OF ch this]
  show "\<exists>pre post. generate_patch_lines self h =
          Inr (pre @ [''--- /dev/null'', ''+++ b/'' @ p, ''+[Binary file]'', []] @ post)"
    unfolding b by simp
next
  assume a: "p \<in> deleted \<and> fmlookup (cells h (initial_files self)) p = Some binary_marker"
  then have b: "deleted_block p (the (fmlookup (cells h (initial_files self)) p))
                = [''--- a/'' @ p, ''+++ /dev/null'', ''-[Binary file]'']"
    using marker_lines [of "''-''"] by (simp add: deleted_block_def)
  from a have "p \<in> deleted" by (rule conjunct1)
  from deleted_block_in_patch [OF ch this]
  show "\<exists>pre post. generate_patch_lines self h =
          Inr (pre @ [''--- a/'' @ p, ''+++ /dev/null'', ''-[Binary file]'', []] @ post)"
    unfolding b by simp
qed

theorem binary_marker_block_witness:
  "get_changes scenario_bot binary_swap_heap = ({''new.bin''}, {}, {''old.bin''})
   \<and> fmlookup (cells binary_swap_heap (current_files scenario_bot)) ''new.bin'' = Some binary_marker
   \<and> (\<exists>pre post. generate_patch_lines scenario_bot binary_swap_heap =
         Inr (pre @ [''--- /dev/null'', ''+++ b/'' @ ''new.bin'', ''+[Binary file]'', []] @ post))"
proof -
  have m: "''new.bin'' \<in> {''new.bin''}" by simp
  have l: "fmlookup (cells binary_swap_heap (current_files scenario_bot)) ''new.bin''
           = Some binary_marker"
    by (simp add: binary_swap_heap_def scenario_bot_def)
  have 3: "\<exists>pre post. generate_patch_lines scenario_bot binary_swap_heap =
         Inr (pre @ [''--- /dev/null'', ''+++ b/'' @ ''new.bin'', ''+[Binary file]'', []] @ post)"
    by (rule mp [OF conjunct1 [OF binary_marker_block [OF binary_swap_changes]] conjI [OF m l]])
  show ?thesis by (intro conjI binary_swap_changes l 3)
qed


end
